theory Spec2Isabelle
  imports Main "HOL-Library.Multiset"
begin

section \<open>The banker's algorithm of yinhangjia.py\<close>

text \<open>
  The ledger \<open>BankerSystem\<close> of the source is a dataclass of two Python integers and three
  lists. Python integers are unbounded, so they are \<open>int\<close>; list positions that come out of
  \<open>range\<close> are natural numbers. Reading a list outside its range raises \<open>IndexError\<close> in
  Python, and the two argument checks of \<open>request\<close> and \<open>release\<close> raise
  \<open>ValueError\<close>: both are values of \<open>error\<close> here. Console output is not modelled; the
  \<open>verbose\<close> flag is kept where the printing code evaluates something that can raise.
\<close>

datatype error = ValueError | IndexError

record BankerSystem =
  n :: int
  m :: int
  available :: "int list"
  max_need :: "int list list"
  allocation :: "int list list"

subsection \<open>Vector helpers (source lines 8 to 15)\<close>

text \<open>\<open>zip\<close> stops at the shorter list in Python as in HOL.\<close>

definition vec_le :: "int list \<Rightarrow> int list \<Rightarrow> bool" where
  "vec_le a b = list_all (\<lambda>(x, y). x \<le> y) (zip a b)"

definition vec_add :: "int list \<Rightarrow> int list \<Rightarrow> int list" where
  "vec_add a b = map (\<lambda>(x, y). x + y) (zip a b)"

definition vec_sub :: "int list \<Rightarrow> int list \<Rightarrow> int list" where
  "vec_sub a b = map (\<lambda>(x, y). x - y) (zip a b)"

subsection \<open>Indexing, comprehensions and for loops with errors\<close>

text \<open>\<open>xs[i]\<close> for a position \<open>i \<ge> 0\<close>.\<close>

definition getitem :: "'a list \<Rightarrow> nat \<Rightarrow> error + 'a" where
  "getitem xs i = (if i < length xs then Inr (xs ! i) else Inl IndexError)"

text \<open>\<open>[f(i) for i in idx]\<close>, stopping at the first element that raises.\<close>

fun list_comp :: "(nat \<Rightarrow> error + 'a) \<Rightarrow> nat list \<Rightarrow> error + 'a list" where
  "list_comp f [] = Inr []"
| "list_comp f (i # idx) =
     (case f i of
        Inl e \<Rightarrow> Inl e
      | Inr x \<Rightarrow> (case list_comp f idx of Inl e \<Rightarrow> Inl e | Inr xs \<Rightarrow> Inr (x # xs)))"

text \<open>\<open>for i in idx: body\<close> over a loop state, stopping at the first iteration that raises.\<close>

fun for_each :: "(nat \<Rightarrow> 'a \<Rightarrow> error + 'a) \<Rightarrow> nat list \<Rightarrow> 'a \<Rightarrow> error + 'a" where
  "for_each body [] st = Inr st"
| "for_each body (i # idx) st =
     (case body i st of Inl e \<Rightarrow> Inl e | Inr st' \<Rightarrow> for_each body idx st')"

subsection \<open>\<open>need\<close> (source lines 31 and 32)\<close>

text \<open>The entry \<open>self.max_need[i][j] - self.allocation[i][j]\<close>, read left to right.\<close>

definition need_entry :: "BankerSystem \<Rightarrow> nat \<Rightarrow> nat \<Rightarrow> error + int" where
  "need_entry s i j =
     (case getitem (max_need s) i of
        Inl e \<Rightarrow> Inl e
      | Inr mrow \<Rightarrow>
          (case getitem mrow j of
             Inl e \<Rightarrow> Inl e
           | Inr a \<Rightarrow>
               (case getitem (allocation s) i of
                  Inl e \<Rightarrow> Inl e
                | Inr arow \<Rightarrow>
                    (case getitem arow j of Inl e \<Rightarrow> Inl e | Inr b \<Rightarrow> Inr (a - b)))))"

text \<open>\<open>range(k)\<close> is empty for \<open>k \<le> 0\<close>, hence \<open>nat\<close>.\<close>

definition need :: "BankerSystem \<Rightarrow> error + int list list" where
  "need s =
     list_comp (\<lambda>i. list_comp (\<lambda>j. need_entry s i j) [0..<nat (m s)]) [0..<nat (n s)]"

subsection \<open>\<open>safety_check\<close> (source lines 34 to 64)\<close>

text \<open>
  The loop state is \<open>(work, finish, seq, changed)\<close>. One iteration of the \<open>for\<close> loop of
  lines 47 to 56: \<open>not finish[i]\<close> is tested first, and \<open>need[i]\<close> is read only when it holds.
\<close>

definition scan_step ::
  "int list list \<Rightarrow> int list list \<Rightarrow> nat \<Rightarrow>
   int list \<times> bool list \<times> nat list \<times> bool \<Rightarrow>
   error + (int list \<times> bool list \<times> nat list \<times> bool)" where
  "scan_step nd al i st =
     (case st of (work, finish, seq, changed) \<Rightarrow>
        (case getitem finish i of
           Inl e \<Rightarrow> Inl e
         | Inr fi \<Rightarrow>
             if fi then Inr st
             else
               (case getitem nd i of
                  Inl e \<Rightarrow> Inl e
                | Inr ndi \<Rightarrow>
                    if vec_le ndi work then
                      (case getitem al i of
                         Inl e \<Rightarrow> Inl e
                       | Inr ali \<Rightarrow>
                           Inr (vec_add work ali, finish[i := True], seq @ [i], True))
                    else Inr st)))"

text \<open>How many processes are still unfinished; the \<open>while\<close> loop runs while this falls.\<close>

definition unfinished :: "bool list \<Rightarrow> nat" where
  "unfinished finish = sum_list (map (\<lambda>b. if b then 0 else 1) finish)"

lemma unfinished_update:
  "i < length finish \<Longrightarrow> \<not> finish ! i \<Longrightarrow> unfinished (finish[i := True]) < unfinished finish"
proof -
  assume a: "i < length finish" "\<not> finish ! i"
  let ?g = "\<lambda>b::bool. if b then 0 else (1::nat)"
  have "sum_list ((map ?g finish)[i := ?g True]) = sum_list (map ?g finish) + ?g True - (map ?g finish) ! i"
    using a by (simp add: sum_list_update)
  moreover have "(map ?g finish) ! i = 1" using a by simp
  moreover have "(map ?g finish) ! i \<in> set (map ?g finish)"
    using a by (intro nth_mem) simp
  then have "(map ?g finish) ! i \<le> sum_list (map ?g finish)"
    by (rule member_le_sum_list) simp
  ultimately show ?thesis by (simp add: unfinished_def map_update)
qed

lemma scan_step_unfinished:
  "scan_step nd al i (w, f, sq, c) = Inr (w', f', sq', c') \<Longrightarrow>
   unfinished f' \<le> unfinished f \<and> (c' \<and> \<not> c \<longrightarrow> unfinished f' < unfinished f)"
  by (auto simp: scan_step_def getitem_def split: if_splits sum.splits dest: unfinished_update less_imp_le)

lemma for_each_unfinished:
  "for_each (scan_step nd al) idx (w, f, sq, c) = Inr (w', f', sq', c') \<Longrightarrow>
   unfinished f' \<le> unfinished f \<and> (c' \<and> \<not> c \<longrightarrow> unfinished f' < unfinished f)"
proof (induction idx arbitrary: w f sq c)
  case Nil
  then show ?case by simp
next
  case (Cons i idx)
  from Cons.prems obtain w1 f1 sq1 c1 where
    s: "scan_step nd al i (w, f, sq, c) = Inr (w1, f1, sq1, c1)" and
    r: "for_each (scan_step nd al) idx (w1, f1, sq1, c1) = Inr (w', f', sq', c')"
    by (auto split: sum.splits)
  from scan_step_unfinished[OF s] Cons.IH[OF r] show ?case by auto
qed

text \<open>
  The \<open>while changed\<close> loop of lines 44 to 56: a pass over \<open>range(n)\<close> that starts with
  \<open>changed = False\<close>, repeated as long as a pass sets \<open>changed\<close>. A pass that sets it has
  finished one more process, which is why the loop ends.
\<close>

function safety_loop ::
  "int list list \<Rightarrow> int list list \<Rightarrow> nat \<Rightarrow> int list \<times> bool list \<times> nat list \<Rightarrow>
   error + (int list \<times> bool list \<times> nat list)" where
  "safety_loop nd al k (work, finish, seq) =
     (case for_each (scan_step nd al) [0..<k] (work, finish, seq, False) of
        Inl e \<Rightarrow> Inl e
      | Inr (work', finish', seq', changed) \<Rightarrow>
          if changed then safety_loop nd al k (work', finish', seq')
          else Inr (work', finish', seq'))"
  by pat_completeness auto
termination
proof (relation "measure (\<lambda>(nd, al, k, work, finish, seq). unfinished finish)")
  show "wf (measure (\<lambda>(nd, al, k, work, finish, seq). unfinished finish))" by simp
next
  fix nd al k work finish seq x2 x y xa ya xb yb
  assume "for_each (scan_step nd al) [0..<k] (work, finish, seq, False) = Inr x2"
    "(x, y) = x2" "(xa, ya) = y" "(xb, yb) = ya" "yb"
  then have "for_each (scan_step nd al) [0..<k] (work, finish, seq, False) = Inr (x, xa, xb, True)"
    by auto
  from for_each_unfinished[OF this]
  show "((nd, al, k, x, xa, xb), nd, al, k, work, finish, seq)
       \<in> measure (\<lambda>(nd, al, k, work, finish, seq). unfinished finish)" by simp
qed

text \<open>
  \<open>work\<close> starts as a copy of \<open>available\<close>, \<open>finish\<close> as \<open>[False] * n\<close> (empty for
  \<open>n \<le> 0\<close>), and the verdict is \<open>all(finish)\<close>. The printing code of \<open>safety_check\<close> only
  formats values that are already computed, so the flag \<open>verbose\<close> is left out here.
\<close>

definition safety_check :: "BankerSystem \<Rightarrow> error + (bool \<times> nat list)" where
  "safety_check s =
     (case need s of
        Inl e \<Rightarrow> Inl e
      | Inr nd \<Rightarrow>
          (case safety_loop nd (allocation s) (nat (n s))
                  (available s, replicate (nat (n s)) False, []) of
             Inl e \<Rightarrow> Inl e
           | Inr (work, finish, seq) \<Rightarrow> Inr (list_all (\<lambda>b. b) finish, seq)))"

subsection \<open>\<open>request\<close> (source lines 66 to 113)\<close>

text \<open>
  The verbose printing code of \<open>request\<close> and \<open>release\<close> evaluates \<open>need()[pid]\<close> on the
  ledger it prints, which raises where \<open>need\<close> does.
\<close>

definition print_need_row :: "BankerSystem \<Rightarrow> nat \<Rightarrow> error + unit" where
  "print_need_row s i =
     (case need s of
        Inl e \<Rightarrow> Inl e
      | Inr nd \<Rightarrow> (case getitem nd i of Inl e \<Rightarrow> Inl e | Inr row \<Rightarrow> Inr ()))"

text \<open>
  A call returns the ledger as it is after the call, together with the exception raised or
  the boolean returned. \<open>tmp.safety_check\<close> is a method call on the temporary ledger; the
  method is the parameter \<open>check\<close> of \<open>request_with\<close>, and \<open>request\<close> is the source's
  function, where the method is \<open>safety_check\<close>.
\<close>

definition request_with ::
  "(BankerSystem \<Rightarrow> error + (bool \<times> nat list)) \<Rightarrow>
   BankerSystem \<Rightarrow> int \<Rightarrow> int list \<Rightarrow> bool \<Rightarrow> BankerSystem \<times> (error + bool)" where
  "request_with check s pid req verbose =
     (if pid < 0 \<or> n s \<le> pid then (s, Inl ValueError)
      else if int (length req) \<noteq> m s then (s, Inl ValueError)
      else
        (case need s of
           Inl e \<Rightarrow> (s, Inl e)
         | Inr nd \<Rightarrow>
             (case getitem nd (nat pid) of
                Inl e \<Rightarrow> (s, Inl e)
              | Inr need_pid \<Rightarrow>
                  if \<not> vec_le req need_pid then (s, Inr False)
                  else if \<not> vec_le req (available s) then (s, Inr False)
                  else
                    (case getitem (allocation s) (nat pid) of
                       Inl e \<Rightarrow> (s, Inl e)
                     | Inr alloc_pid \<Rightarrow>
                         let avail2 = vec_sub (available s) req;
                             alloc2 = (allocation s)[nat pid := vec_add alloc_pid req];
                             tmp = \<lparr>n = n s, m = m s, available = avail2,
                                    max_need = max_need s, allocation = alloc2\<rparr>
                         in
                           (case (if verbose then print_need_row tmp (nat pid) else Inr ()) of
                              Inl e \<Rightarrow> (s, Inl e)
                            | Inr u \<Rightarrow>
                                (case check tmp of
                                   Inl e \<Rightarrow> (s, Inl e)
                                 | Inr (safe, seq) \<Rightarrow>
                                     if safe
                                     then (s\<lparr>available := avail2, allocation := alloc2\<rparr>,
                                           Inr True)
                                     else (s, Inr False)))))))"

definition request ::
  "BankerSystem \<Rightarrow> int \<Rightarrow> int list \<Rightarrow> bool \<Rightarrow> BankerSystem \<times> (error + bool)" where
  "request = request_with safety_check"

subsection \<open>\<open>release\<close> (source lines 115 to 138)\<close>

text \<open>
  \<open>release\<close> writes the two fields before the verbose printing code runs, so an exception
  raised there leaves the ledger changed.
\<close>

definition release ::
  "BankerSystem \<Rightarrow> int \<Rightarrow> int list \<Rightarrow> bool \<Rightarrow> BankerSystem \<times> (error + bool)" where
  "release s pid rel verbose =
     (if pid < 0 \<or> n s \<le> pid then (s, Inl ValueError)
      else if int (length rel) \<noteq> m s then (s, Inl ValueError)
      else
        (case getitem (allocation s) (nat pid) of
           Inl e \<Rightarrow> (s, Inl e)
         | Inr alloc_pid \<Rightarrow>
             if \<not> vec_le rel alloc_pid then (s, Inr False)
             else
               let s' = s\<lparr>allocation := (allocation s)[nat pid := vec_sub alloc_pid rel],
                           available := vec_add (available s) rel\<rparr>
               in
                 (case (if verbose then print_need_row s' (nat pid) else Inr ()) of
                    Inl e \<Rightarrow> (s', Inl e)
                  | Inr u \<Rightarrow> (s', Inr True))))"

subsection \<open>The textbook state of scenario A\<close>

definition scenario_A :: BankerSystem where
  "scenario_A =
     \<lparr>n = 5, m = 3, available = [3, 3, 2],
      max_need = [[7, 5, 3], [3, 2, 2], [9, 0, 2], [2, 2, 2], [4, 3, 3]],
      allocation = [[0, 1, 0], [2, 0, 0], [3, 0, 2], [2, 1, 1], [0, 0, 2]]\<rparr>"



subsection \<open>The data model of the specification\<close>

text \<open>
  A ledger has the dimensions the specification gives it when \<open>available\<close> has \<open>m\<close>
  entries and both matrices have \<open>n\<close> rows of \<open>m\<close> entries. \<open>inv_I1\<close> and \<open>inv_I2\<close> are
  the invariants I1 (\<open>0 \<le> Allocation \<le> Max\<close>) and I2 (\<open>Available \<ge> 0\<close>), and
  \<open>total_units s j\<close> is the supply of resource class \<open>j\<close>: what is available plus what
  the processes hold.
\<close>

definition wf_dims :: "BankerSystem \<Rightarrow> bool" where
  "wf_dims s =
     (int (length (available s)) = m s \<and>
      int (length (max_need s)) = n s \<and>
      int (length (allocation s)) = n s \<and>
      list_all (\<lambda>row. int (length row) = m s) (max_need s) \<and>
      list_all (\<lambda>row. int (length row) = m s) (allocation s))"

definition inv_I1 :: "BankerSystem \<Rightarrow> bool" where
  "inv_I1 s =
     list_all (\<lambda>(arow, mrow). list_all (\<lambda>(a, b). 0 \<le> a \<and> a \<le> b) (zip arow mrow))
       (zip (allocation s) (max_need s))"

definition inv_I2 :: "BankerSystem \<Rightarrow> bool" where
  "inv_I2 s = list_all (\<lambda>x. 0 \<le> x) (available s)"

definition total_units :: "BankerSystem \<Rightarrow> nat \<Rightarrow> int" where
  "total_units s j = available s ! j + (\<Sum>i<nat (n s). allocation s ! i ! j)"

text \<open>The lower half of I1: no entry of \<open>Allocation\<close> is negative.\<close>

definition alloc_nonneg :: "BankerSystem \<Rightarrow> bool" where
  "alloc_nonneg s = list_all (list_all (\<lambda>x. 0 \<le> x)) (allocation s)"

subsection \<open>Completion orders\<close>

text \<open>
  \<open>run_work al w sq\<close> is the work vector after the processes of \<open>sq\<close> have handed back
  their allocation one after the other, and \<open>valid_run nd al w sq\<close> says that each of them
  found its need covered when its turn came. \<open>scan_inv\<close> is what every pass of the scan
  keeps: the flags \<open>finish\<close> mark exactly the processes of \<open>seq\<close>, no process is listed
  twice, and \<open>seq\<close> is a valid completion order from the initial work vector \<open>w0\<close> that
  ends in \<open>work\<close>.
\<close>

fun run_work :: "int list list \<Rightarrow> int list \<Rightarrow> nat list \<Rightarrow> int list" where
  "run_work al w [] = w"
| "run_work al w (i # sq) = run_work al (vec_add w (al ! i)) sq"

fun valid_run :: "int list list \<Rightarrow> int list list \<Rightarrow> int list \<Rightarrow> nat list \<Rightarrow> bool" where
  "valid_run nd al w [] = True"
| "valid_run nd al w (i # sq) = (vec_le (nd ! i) w \<and> valid_run nd al (vec_add w (al ! i)) sq)"

definition scan_inv ::
  "int list list \<Rightarrow> int list list \<Rightarrow> nat \<Rightarrow> int list \<Rightarrow>
   int list \<Rightarrow> bool list \<Rightarrow> nat list \<Rightarrow> bool" where
  "scan_inv nd al k w0 work finish seq =
     (length finish = k \<and> list_all (\<lambda>i. finish ! i = (i \<in> set seq)) [0..<k] \<and>
      distinct seq \<and> list_all (\<lambda>i. i < k) seq \<and>
      work = run_work al w0 seq \<and> valid_run nd al w0 seq)"

subsection \<open>The safety algorithm as the specification words it\<close>

text \<open>
  The specification describes \<open>isSafe\<close> as follows: scan the processes in index order; the
  first unfinished process whose need is covered by \<open>work\<close> is marked finished, its
  allocation is added to \<open>work\<close>, its index is appended to the sequence, and the scan
  restarts from the top; the algorithm stops when a full scan finds no such process, and
  the verdict is safe when every process is finished. \<open>isSafe_pick\<close> is one scan,
  \<open>isSafe_loop\<close> the repetition and \<open>isSafe_ref\<close> the whole, on the need matrix of \<open>need\<close>.
\<close>

definition isSafe_pick :: "int list list \<Rightarrow> int list \<Rightarrow> bool list \<Rightarrow> nat option" where
  "isSafe_pick nd work finish =
     List.find (\<lambda>i. \<not> finish ! i \<and> vec_le (nd ! i) work) [0..<length finish]"

lemma isSafe_pick_Some:
  "isSafe_pick nd work finish = Some i \<Longrightarrow>
   i < length finish \<and> \<not> finish ! i \<and> vec_le (nd ! i) work"
  by (auto simp: isSafe_pick_def find_Some_iff)

function isSafe_loop ::
  "int list list \<Rightarrow> int list list \<Rightarrow> int list \<times> bool list \<times> nat list \<Rightarrow>
   int list \<times> bool list \<times> nat list" where
  "isSafe_loop nd al (work, finish, seq) =
     (case isSafe_pick nd work finish of
        None \<Rightarrow> (work, finish, seq)
      | Some i \<Rightarrow> isSafe_loop nd al (vec_add work (al ! i), finish[i := True], seq @ [i]))"
  by pat_completeness auto
termination
proof (relation "measure (\<lambda>(nd, al, work, finish, seq). unfinished finish)")
  show "wf (measure (\<lambda>(nd, al, work, finish, seq). unfinished finish))" by simp
next
  fix nd al work finish seq i
  assume "isSafe_pick nd work finish = Some i"
  from isSafe_pick_Some[OF this] have "unfinished (finish[i := True]) < unfinished finish"
    by (intro unfinished_update) auto
  then show "((nd, al, vec_add work (al ! i), finish[i := True], seq @ [i]),
          nd, al, work, finish, seq)
         \<in> measure (\<lambda>(nd, al, work, finish, seq). unfinished finish)"
    by simp
qed

definition isSafe_ref :: "BankerSystem \<Rightarrow> error + (bool \<times> nat list)" where
  "isSafe_ref s =
     (case need s of
        Inl e \<Rightarrow> Inl e
      | Inr nd \<Rightarrow>
          (case isSafe_loop nd (allocation s)
                  (available s, replicate (nat (n s)) False, []) of
             (work, finish, seq) \<Rightarrow> Inr (list_all (\<lambda>b. b) finish, seq)))"

section \<open>Facts about the helpers\<close>

lemma vec_le_nth:
  "vec_le a b \<longleftrightarrow> (\<forall>j. j < length a \<and> j < length b \<longrightarrow> a ! j \<le> b ! j)"
  by (auto simp: vec_le_def list_all_length)

lemma length_vec_add [simp]: "length (vec_add a b) = min (length a) (length b)"
  by (simp add: vec_add_def)

lemma length_vec_sub [simp]: "length (vec_sub a b) = min (length a) (length b)"
  by (simp add: vec_sub_def)

lemma nth_vec_add [simp]:
  "j < length a \<Longrightarrow> j < length b \<Longrightarrow> vec_add a b ! j = a ! j + b ! j"
  by (simp add: vec_add_def)

lemma nth_vec_sub [simp]:
  "j < length a \<Longrightarrow> j < length b \<Longrightarrow> vec_sub a b ! j = a ! j - b ! j"
  by (simp add: vec_sub_def)

lemma list_comp_Inr:
  "list_comp f idx = Inr xs \<Longrightarrow>
   length xs = length idx \<and> (\<forall>k<length idx. f (idx ! k) = Inr (xs ! k))"
proof (induction idx arbitrary: xs)
  case Nil
  then show ?case by simp
next
  case (Cons i idx)
  from Cons.prems obtain x ys where
    h: "f i = Inr x" "list_comp f idx = Inr ys" "xs = x # ys"
    by (auto split: sum.splits)
  from Cons.IH[OF h(2)] h(1,3) show ?case
    by (auto simp: nth_Cons')
qed

lemma list_comp_map:
  "(\<And>i. i \<in> set idx \<Longrightarrow> f i = Inr (g i)) \<Longrightarrow> list_comp f idx = Inr (map g idx)"
  by (induction idx) auto

lemma need_entry_Inr:
  "need_entry s i j = Inr x \<Longrightarrow>
   i < length (max_need s) \<and> j < length (max_need s ! i) \<and>
   i < length (allocation s) \<and> j < length (allocation s ! i) \<and>
   x = max_need s ! i ! j - allocation s ! i ! j"
  by (auto simp: need_entry_def getitem_def split: if_splits sum.splits)

lemma need_Inr:
  assumes "need s = Inr nd"
  shows "length nd = nat (n s)"
    and "i < nat (n s) \<Longrightarrow> length (nd ! i) = nat (m s)"
    and "i < nat (n s) \<Longrightarrow> j < nat (m s) \<Longrightarrow>
         i < length (max_need s) \<and> j < length (max_need s ! i) \<and>
         i < length (allocation s) \<and> j < length (allocation s ! i) \<and>
         nd ! i ! j = max_need s ! i ! j - allocation s ! i ! j"
proof -
  from list_comp_Inr[OF assms[unfolded need_def]]
  have l: "length nd = nat (n s)"
    and r: "\<And>k. k < nat (n s) \<Longrightarrow>
              list_comp (\<lambda>j. need_entry s k j) [0..<nat (m s)] = Inr (nd ! k)"
    by auto
  show "length nd = nat (n s)" by (rule l)
  {
    assume i: "i < nat (n s)"
    from list_comp_Inr[OF r[OF i]]
    have l2: "length (nd ! i) = nat (m s)"
      and e: "\<And>k. k < nat (m s) \<Longrightarrow> need_entry s i k = Inr (nd ! i ! k)"
      by auto
    show "length (nd ! i) = nat (m s)" by (rule l2)
    assume j: "j < nat (m s)"
    from need_entry_Inr[OF e[OF j]]
    show "i < length (max_need s) \<and> j < length (max_need s ! i) \<and>
         i < length (allocation s) \<and> j < length (allocation s ! i) \<and>
         nd ! i ! j = max_need s ! i ! j - allocation s ! i ! j" by simp
  }
qed

lemma request_with_cases:
  assumes "request_with check s pid req verbose = (s', Inr b)"
  shows "0 \<le> pid \<and> pid < n s \<and> int (length req) = m s \<and>
         (\<exists>nd. need s = Inr nd) \<and>
         (if b then nat pid < length (allocation s) \<and>
                    s' = s\<lparr>available := vec_sub (available s) req,
                          allocation := (allocation s)[nat pid :=
                             vec_add (allocation s ! nat pid) req]\<rparr>
          else s' = s)"
  using assms
  by (auto simp: request_with_def Let_def getitem_def split: if_splits sum.splits prod.splits)

lemma column_sum_update:
  fixes al :: "int list list"
  assumes "p < k" and "p < length al"
  shows "(\<Sum>i<k. (al[p := r]) ! i ! j) = (\<Sum>i<k. al ! i ! j) - al ! p ! j + r ! j"
proof -
  have a: "(\<Sum>i<k. (al[p := r]) ! i ! j) = (al[p := r]) ! p ! j + (\<Sum>i\<in>{..<k} - {p}. (al[p := r]) ! i ! j)"
    using assms(1) by (intro sum.remove) auto
  have b: "(\<Sum>i<k. al ! i ! j) = al ! p ! j + (\<Sum>i\<in>{..<k} - {p}. al ! i ! j)"
    using assms(1) by (intro sum.remove) auto
  have c: "(\<Sum>i\<in>{..<k} - {p}. (al[p := r]) ! i ! j) = (\<Sum>i\<in>{..<k} - {p}. al ! i ! j)"
    by (intro sum.cong) auto
  from a b c assms(2) show ?thesis by simp
qed

lemma release_cases:
  assumes "release s pid rel verbose = (s', Inr b)"
  shows "0 \<le> pid \<and> pid < n s \<and> int (length rel) = m s \<and> nat pid < length (allocation s) \<and>
         (if b then vec_le rel (allocation s ! nat pid) \<and>
                    s' = s\<lparr>allocation := (allocation s)[nat pid :=
                             vec_sub (allocation s ! nat pid) rel],
                          available := vec_add (available s) rel\<rparr>
          else s' = s)"
  using assms
  by (auto simp: release_def Let_def getitem_def split: if_splits sum.splits prod.splits)

lemma wf_dimsD:
  assumes "wf_dims s"
  shows "length (available s) = nat (m s)" and "length (max_need s) = nat (n s)"
    and "length (allocation s) = nat (n s)"
    and "i < nat (n s) \<Longrightarrow> length (max_need s ! i) = nat (m s)"
    and "i < nat (n s) \<Longrightarrow> length (allocation s ! i) = nat (m s)"
    and "0 \<le> n s" and "0 \<le> m s"
proof -
  from assms have a: "int (length (available s)) = m s" "int (length (max_need s)) = n s"
    "int (length (allocation s)) = n s"
    and b: "\<And>k. k < length (max_need s) \<Longrightarrow> int (length (max_need s ! k)) = m s"
    and c: "\<And>k. k < length (allocation s) \<Longrightarrow> int (length (allocation s ! k)) = m s"
    by (auto simp: wf_dims_def list_all_length)
  from a show "length (available s) = nat (m s)" "length (max_need s) = nat (n s)"
    "length (allocation s) = nat (n s)" "0 \<le> n s" "0 \<le> m s"
    by auto
  { assume i: "i < nat (n s)"
    with a have "i < length (max_need s)" "i < length (allocation s)" by auto
    from b[OF this(1)] c[OF this(2)]
    show "length (max_need s ! i) = nat (m s)" "length (allocation s ! i) = nat (m s)"
      by auto }
qed

subsection \<open>The scan keeps its invariant and does not raise\<close>

lemma run_work_snoc: "run_work al w (sq @ [i]) = vec_add (run_work al w sq) (al ! i)"
  by (induction sq arbitrary: w) auto

lemma valid_run_snoc:
  "valid_run nd al w (sq @ [i]) = (valid_run nd al w sq \<and> vec_le (nd ! i) (run_work al w sq))"
  by (induction sq arbitrary: w) auto

lemma scan_invD:
  assumes "scan_inv nd al k w0 work finish seq"
  shows "length finish = k" and "i < k \<Longrightarrow> finish ! i = (i \<in> set seq)"
    and "distinct seq" and "set seq \<subseteq> {..<k}"
    and "work = run_work al w0 seq" and "valid_run nd al w0 seq"
  using assms by (auto simp: scan_inv_def list_all_iff)

lemma scan_invI:
  assumes "length finish = k" and "\<And>i. i < k \<Longrightarrow> finish ! i = (i \<in> set seq)"
    and "distinct seq" and "set seq \<subseteq> {..<k}"
    and "work = run_work al w0 seq" and "valid_run nd al w0 seq"
  shows "scan_inv nd al k w0 work finish seq"
  using assms by (auto simp: scan_inv_def list_all_iff)

lemma scan_inv_init: "scan_inv nd al k w0 w0 (replicate k False) []"
  by (rule scan_invI) auto

lemma scan_step_cases:
  assumes "scan_step nd al i (w, f, sq, c) = Inr (w', f', sq', c')"
  shows "i < length f \<and>
         ((w', f', sq', c') = (w, f, sq, c) \<and> (f ! i \<or> (i < length nd \<and> \<not> vec_le (nd ! i) w)) \<or>
          (\<not> f ! i \<and> i < length nd \<and> vec_le (nd ! i) w \<and> i < length al \<and>
           (w', f', sq', c') = (vec_add w (al ! i), f[i := True], sq @ [i], True)))"
  using assms
  by (auto simp: scan_step_def getitem_def split: if_splits sum.splits)

lemma scan_step_inv:
  assumes "scan_step nd al i (w, f, sq, c) = Inr (w', f', sq', c')"
    and "scan_inv nd al k w0 w f sq" and "i < k"
  shows "scan_inv nd al k w0 w' f' sq' \<and> (c \<longrightarrow> c') \<and>
         (c' \<or> ((w', f', sq') = (w, f, sq) \<and> (i \<in> set sq \<or> \<not> vec_le (nd ! i) w)))"
proof -
  note d = scan_invD[OF assms(2)]
  from scan_step_cases[OF assms(1)] consider
    (same) "(w', f', sq', c') = (w, f, sq, c)" "f ! i \<or> \<not> vec_le (nd ! i) w"
    | (pick) "\<not> f ! i" "vec_le (nd ! i) w"
      "(w', f', sq', c') = (vec_add w (al ! i), f[i := True], sq @ [i], True)"
    by auto
  then show ?thesis
  proof cases
    case same
    with assms(2,3) d(2)[OF assms(3)] show ?thesis by auto
  next
    case pick
    from pick(1) d(2)[OF assms(3)] have ni: "i \<notin> set sq" by simp
    have "scan_inv nd al k w0 (vec_add w (al ! i)) (f[i := True]) (sq @ [i])"
    proof (rule scan_invI)
      show "length (f[i := True]) = k" using d(1) by simp
      show "(f[i := True]) ! j = (j \<in> set (sq @ [i]))" if "j < k" for j
        using d(2)[OF that] d(1) that by (cases "j = i") auto
      show "distinct (sq @ [i])" using d(3) ni by simp
      show "set (sq @ [i]) \<subseteq> {..<k}" using d(4) assms(3) by simp
      show "vec_add w (al ! i) = run_work al w0 (sq @ [i])"
        using d(5) by (simp add: run_work_snoc)
      show "valid_run nd al w0 (sq @ [i])"
        using d(5,6) pick(2) by (simp add: valid_run_snoc)
    qed
    with pick(3) show ?thesis by simp
  qed
qed

lemma for_each_inv:
  assumes "for_each (scan_step nd al) idx (w, f, sq, c) = Inr (w', f', sq', c')"
    and "scan_inv nd al k w0 w f sq" and "set idx \<subseteq> {..<k}"
  shows "scan_inv nd al k w0 w' f' sq' \<and> (c \<longrightarrow> c') \<and>
         (c' \<or> ((w', f', sq') = (w, f, sq) \<and>
                (\<forall>i\<in>set idx. i \<in> set sq \<or> \<not> vec_le (nd ! i) w)))"
  using assms
proof (induction idx arbitrary: w f sq c)
  case Nil
  then show ?case by simp
next
  case (Cons i idx)
  from Cons.prems(1) obtain w1 f1 sq1 c1 where
    s: "scan_step nd al i (w, f, sq, c) = Inr (w1, f1, sq1, c1)" and
    r: "for_each (scan_step nd al) idx (w1, f1, sq1, c1) = Inr (w', f', sq', c')"
    by (auto split: sum.splits)
  from Cons.prems(3) have i: "i < k" and idx: "set idx \<subseteq> {..<k}" by auto
  note a = scan_step_inv[OF s Cons.prems(2) i]
  from a have inv1: "scan_inv nd al k w0 w1 f1 sq1" by simp
  note b = Cons.IH[OF r inv1 idx]
  from a b show ?case by auto
qed

lemma safety_loop_inv:
  assumes "safety_loop nd al k (w, f, sq) = Inr (w', f', sq')"
    and "scan_inv nd al k w0 w f sq"
  shows "scan_inv nd al k w0 w' f' sq' \<and> (\<forall>i<k. i \<in> set sq' \<or> \<not> vec_le (nd ! i) w')"
  using assms
proof (induction nd al k "(w, f, sq)" arbitrary: w f sq rule: safety_loop.induct)
  case (1 nd al k work finish seq)
  from "1.prems"(1) obtain w1 f1 sq1 c1 where
    p: "for_each (scan_step nd al) [0..<k] (work, finish, seq, False) = Inr (w1, f1, sq1, c1)"
    by (auto split: sum.splits)
  have idx: "set [0..<k] \<subseteq> {..<k}" by auto
  note a = for_each_inv[OF p "1.prems"(2) idx]
  show ?case
  proof (cases c1)
    case True
    with "1.prems"(1) p have "safety_loop nd al k (w1, f1, sq1) = Inr (w', f', sq')"
      by simp
    from "1.hyps"[OF p refl refl refl True this] a show ?thesis by simp
  next
    case False
    with "1.prems"(1) p have "(w', f', sq') = (w1, f1, sq1)" by simp
    with a False show ?thesis by auto
  qed
qed


lemma for_each_length:
  "for_each (scan_step nd al) idx (w, f, sq, c) = Inr (w', f', sq', c') \<Longrightarrow>
   length f' = length f"
proof (induction idx arbitrary: w f sq c)
  case Nil
  then show ?case by simp
next
  case (Cons i idx)
  from Cons.prems obtain w1 f1 sq1 c1 where
    s: "scan_step nd al i (w, f, sq, c) = Inr (w1, f1, sq1, c1)" and
    r: "for_each (scan_step nd al) idx (w1, f1, sq1, c1) = Inr (w', f', sq', c')"
    by (auto split: sum.splits)
  from scan_step_cases[OF s] have "length f1 = length f" by auto
  with Cons.IH[OF r] show ?case by simp
qed

lemma scan_step_ok:
  "i < length f \<Longrightarrow> i < length nd \<Longrightarrow> i < length al \<Longrightarrow>
   \<not> isl (scan_step nd al i (w, f, sq, c))"
  by (simp add: scan_step_def getitem_def)

lemma for_each_ok:
  assumes "set idx \<subseteq> {..<length f}" and "length f \<le> length nd" and "length f \<le> length al"
  shows "\<not> isl (for_each (scan_step nd al) idx (w, f, sq, c))"
  using assms
proof (induction idx arbitrary: w f sq c)
  case Nil
  then show ?case by simp
next
  case (Cons i idx)
  from Cons.prems have i: "i < length f" "i < length nd" "i < length al" by auto
  from scan_step_ok[OF i, of w sq c] obtain r where
    "scan_step nd al i (w, f, sq, c) = Inr r"
    by (cases "scan_step nd al i (w, f, sq, c)") auto
  then obtain w1 f1 sq1 c1 where
    s: "scan_step nd al i (w, f, sq, c) = Inr (w1, f1, sq1, c1)"
    by (cases r) auto
  from scan_step_cases[OF s] have l: "length f1 = length f" by auto
  have "\<not> isl (for_each (scan_step nd al) idx (w1, f1, sq1, c1))"
    using Cons.prems l by (intro Cons.IH) auto
  with s show ?case by simp
qed

lemma safety_loop_ok:
  assumes "length f = k" and "k \<le> length nd" and "k \<le> length al"
  shows "\<not> isl (safety_loop nd al k (w, f, sq))"
  using assms
proof (induction nd al k "(w, f, sq)" arbitrary: w f sq rule: safety_loop.induct)
  case (1 nd al k work finish seq)
  have "set [0..<k] \<subseteq> {..<length finish}" using "1.prems"(1) by auto
  from for_each_ok[OF this, of nd al work seq False] "1.prems"
  obtain r where "for_each (scan_step nd al) [0..<k] (work, finish, seq, False) = Inr r"
    by (cases "for_each (scan_step nd al) [0..<k] (work, finish, seq, False)") auto
  then obtain w1 f1 sq1 c1 where
    p: "for_each (scan_step nd al) [0..<k] (work, finish, seq, False) = Inr (w1, f1, sq1, c1)"
    by (cases r) auto
  from for_each_length[OF p] "1.prems"(1) have l: "length f1 = k" by simp
  show ?case
  proof (cases c1)
    case True
    from "1.hyps"[OF p refl refl refl True l "1.prems"(2,3)] p True show ?thesis by simp
  next
    case False
    with p show ?thesis by simp
  qed
qed

lemma need_entry_wf:
  assumes "wf_dims s" and "i < nat (n s)" and "j < nat (m s)"
  shows "need_entry s i j = Inr (max_need s ! i ! j - allocation s ! i ! j)"
  using wf_dimsD(2,3)[OF assms(1)] wf_dimsD(4,5)[OF assms(1,2)] assms(2,3)
  by (simp add: need_entry_def getitem_def)

lemma need_wf:
  assumes "wf_dims s"
  shows "need s =
    Inr (map (\<lambda>i. map (\<lambda>j. max_need s ! i ! j - allocation s ! i ! j) [0..<nat (m s)])
           [0..<nat (n s)])"
  unfolding need_def
proof (rule list_comp_map)
  fix i assume "i \<in> set [0..<nat (n s)]"
  then have i: "i < nat (n s)" by simp
  show "list_comp (need_entry s i) [0..<nat (m s)] =
        Inr (map (\<lambda>j. max_need s ! i ! j - allocation s ! i ! j) [0..<nat (m s)])"
  proof (rule list_comp_map)
    fix j assume "j \<in> set [0..<nat (m s)]"
    then have "j < nat (m s)" by simp
    from need_entry_wf[OF assms i this]
    show "need_entry s i j = Inr (max_need s ! i ! j - allocation s ! i ! j)" .
  qed
qed

lemma print_need_row_wf:
  assumes "wf_dims s" and "i < nat (n s)"
  shows "print_need_row s i = Inr ()"
  using assms(2) by (simp add: print_need_row_def need_wf[OF assms(1)] getitem_def)

lemma safety_check_Inr:
  assumes "safety_check s = Inr (safe, seq)"
  obtains nd w f where "need s = Inr nd"
    and "scan_inv nd (allocation s) (nat (n s)) (available s) w f seq"
    and "\<And>i. i < nat (n s) \<Longrightarrow> i \<in> set seq \<or> \<not> vec_le (nd ! i) w"
    and "safe = (set seq = {..<nat (n s)})"
proof -
  from assms obtain nd where nd: "need s = Inr nd"
    by (cases "need s") (simp_all add: safety_check_def)
  let ?l = "safety_loop nd (allocation s) (nat (n s))
          (available s, replicate (nat (n s)) False, [])"
  from assms nd obtain r where r: "?l = Inr r"
    by (cases ?l) (simp_all add: safety_check_def)
  obtain w f sq where rr: "r = (w, f, sq)" by (cases r) auto
  from assms nd r rr have sq: "sq = seq" and sf: "safe = list_all (\<lambda>b. b) f"
    by (simp_all add: safety_check_def)
  from r rr sq have l: "?l = Inr (w, f, seq)" by simp
  from safety_loop_inv[OF l scan_inv_init] have
    inv: "scan_inv nd (allocation s) (nat (n s)) (available s) w f seq" and
    cl: "\<forall>i<nat (n s). i \<in> set seq \<or> \<not> vec_le (nd ! i) w"
    by simp_all
  note d = scan_invD[OF inv]
  have e: "f ! i = (i \<in> set seq)" if "i < nat (n s)" for i
    using d(2)[OF that] .
  have "list_all (\<lambda>b. b) f = (\<forall>i<nat (n s). f ! i)"
    by (simp add: list_all_length d(1))
  also have "\<dots> = (\<forall>i<nat (n s). i \<in> set seq)"
    by (simp add: e)
  also have "\<dots> = (set seq = {..<nat (n s)})"
    using d(4) by auto
  finally have "safe = (set seq = {..<nat (n s)})" using sf by simp
  with nd inv cl show ?thesis by (intro that) auto
qed

lemma safety_check_wf:
  assumes "wf_dims s"
  shows "\<exists>safe seq. safety_check s = Inr (safe, seq)"
proof -
  let ?nd = "map (\<lambda>i. map (\<lambda>j. max_need s ! i ! j - allocation s ! i ! j) [0..<nat (m s)])
           [0..<nat (n s)]"
  let ?l = "safety_loop ?nd (allocation s) (nat (n s))
          (available s, replicate (nat (n s)) False, [])"
  have a: "length (replicate (nat (n s)) False) = nat (n s)" by simp
  have b: "nat (n s) \<le> length ?nd" by simp
  have c: "nat (n s) \<le> length (allocation s)" using wf_dimsD(3)[OF assms] by simp
  have "\<not> isl ?l" using a b c by (rule safety_loop_ok)
  then obtain r where r: "?l = Inr r" by (cases ?l) auto
  obtain w f sq where "r = (w, f, sq)" by (cases r) auto
  with r show ?thesis
    by (simp add: safety_check_def need_wf[OF assms])
qed

lemma distinct_full:
  assumes "distinct sq" and "set sq \<subseteq> {..<k::nat}"
  shows "(set sq = {..<k}) = (length sq = k)" and "length sq \<le> k"
proof -
  have c: "card (set sq) = length sq" using assms(1) by (rule distinct_card)
  have "card (set sq) \<le> card {..<k}" using assms(2) by (intro card_mono) auto
  then show "length sq \<le> k" using c by simp
  show "(set sq = {..<k}) = (length sq = k)"
  proof
    assume "set sq = {..<k}"
    with c show "length sq = k" by simp
  next
    assume "length sq = k"
    with c have "card (set sq) = card {..<k}" by simp
    with assms(2) show "set sq = {..<k}" by (intro card_subset_eq) auto
  qed
qed

subsection \<open>Calls with arguments in range do not raise\<close>

lemma wf_dims_commit:
  assumes "wf_dims s" and "p < nat (n s)" and "length row = nat (m s)"
    and "length av = nat (m s)"
    and "n s2 = n s" and "m s2 = m s" and "max_need s2 = max_need s"
    and "available s2 = av" and "allocation s2 = (allocation s)[p := row]"
  shows "wf_dims s2"
proof -
  note d = wf_dimsD[OF assms(1)]
  have r: "int (length ((allocation s)[p := row] ! k)) = m s"
    if "k < length (allocation s)" for k
  proof (cases "k = p")
    case True
    with that assms(3) d(7) show ?thesis by simp
  next
    case False
    from that d(3) have "k < nat (n s)" by simp
    from d(5)[OF this] False d(7) show ?thesis by simp
  qed
  have "list_all (\<lambda>row. int (length row) = m s) ((allocation s)[p := row])"
    using r by (simp add: list_all_length)
  moreover have "list_all (\<lambda>row. int (length row) = m s) (max_need s)"
    using assms(1) by (simp add: wf_dims_def)
  ultimately show ?thesis
    using assms(4-9) d(1,2,3,6,7) by (simp add: wf_dims_def)
qed

lemma request_wf:
  assumes "wf_dims s" and "0 \<le> pid" and "pid < n s" and "int (length v) = m s"
  shows "\<not> isl (snd (request s pid v verbose))"
proof -
  note d = wf_dimsD[OF assms(1)]
  from assms(2,3) have p: "nat pid < nat (n s)" by simp
  let ?nd = "map (\<lambda>i. map (\<lambda>j. max_need s ! i ! j - allocation s ! i ! j) [0..<nat (m s)])
           [0..<nat (n s)]"
  let ?tmp = "\<lparr>n = n s, m = m s, available = vec_sub (available s) v,
      max_need = max_need s,
      allocation = (allocation s)[nat pid := vec_add (allocation s ! nat pid) v]\<rparr>"
  have nd: "need s = Inr ?nd" by (rule need_wf[OF assms(1)])
  have g1: "getitem ?nd (nat pid) = Inr (?nd ! nat pid)"
    using p by (simp add: getitem_def)
  have g2: "getitem (allocation s) (nat pid) = Inr (allocation s ! nat pid)"
    using p d(3) by (simp add: getitem_def)
  from assms(4) have lv: "length v = nat (m s)" by simp
  have wt: "wf_dims ?tmp"
    using assms(1) p
  proof (rule wf_dims_commit)
    show "length (vec_add (allocation s ! nat pid) v) = nat (m s)"
      using d(5)[OF p] lv by simp
    show "length (vec_sub (available s) v) = nat (m s)" using d(1) lv by simp
  qed simp_all
  have pr: "print_need_row ?tmp (nat pid) = Inr ()"
    using p by (intro print_need_row_wf[OF wt]) simp
  from safety_check_wf[OF wt] obtain safe seq where
    sc: "safety_check ?tmp = Inr (safe, seq)" by blast
  show ?thesis
    unfolding request_def request_with_def Let_def
    using assms(2,3,4) by (simp add: nd g1 g2 pr sc del: nth_map)
qed

lemma release_wf:
  assumes "wf_dims s" and "0 \<le> pid" and "pid < n s" and "int (length v) = m s"
  shows "\<not> isl (snd (release s pid v verbose))"
proof -
  note d = wf_dimsD[OF assms(1)]
  from assms(2,3) have p: "nat pid < nat (n s)" by simp
  let ?s' = "s\<lparr>allocation := (allocation s)[nat pid := vec_sub (allocation s ! nat pid) v],
      available := vec_add (available s) v\<rparr>"
  have g2: "getitem (allocation s) (nat pid) = Inr (allocation s ! nat pid)"
    using p d(3) by (simp add: getitem_def)
  from assms(4) have lv: "length v = nat (m s)" by simp
  have wt: "wf_dims ?s'"
    using assms(1) p
  proof (rule wf_dims_commit)
    show "length (vec_sub (allocation s ! nat pid) v) = nat (m s)"
      using d(5)[OF p] lv by simp
    show "length (vec_add (available s) v) = nat (m s)" using d(1) lv by simp
  qed simp_all
  have pr: "print_need_row ?s' (nat pid) = Inr ()"
    using p by (intro print_need_row_wf[OF wt]) simp
  show ?thesis
    unfolding release_def Let_def
    using assms(2,3,4) by (simp add: g2 pr)
qed

subsection \<open>Completion orders and closed runs\<close>

text \<open>
  With no negative allocation the work vector only grows, so a run after which no
  unfinished process is satisfiable contains every valid completion order.
\<close>

lemma vec_le_same_length:
  "length a = l \<Longrightarrow> length b = l \<Longrightarrow> vec_le a b = (\<forall>j<l. a ! j \<le> b ! j)"
  by (auto simp: vec_le_nth)

lemma run_work_length:
  "length w = l \<Longrightarrow> (\<And>i. i \<in> set sq \<Longrightarrow> length (al ! i) = l) \<Longrightarrow>
   length (run_work al w sq) = l"
  by (induction sq arbitrary: w) auto

lemma run_work_nth:
  "length w = l \<Longrightarrow> (\<And>i. i \<in> set sq \<Longrightarrow> length (al ! i) = l) \<Longrightarrow> j < l \<Longrightarrow>
   run_work al w sq ! j = w ! j + (\<Sum>i\<leftarrow>sq. al ! i ! j)"
proof (induction sq arbitrary: w)
  case Nil
  then show ?case by simp
next
  case (Cons x sq)
  have lx: "length (al ! x) = l" using Cons.prems(2)[of x] by simp
  have "run_work al (vec_add w (al ! x)) sq ! j =
        vec_add w (al ! x) ! j + (\<Sum>i\<leftarrow>sq. al ! i ! j)"
    using Cons.prems lx by (intro Cons.IH) auto
  with Cons.prems(1,3) lx show ?case by simp
qed

lemma run_work_mono:
  assumes "length w = l" and "\<And>i. i < k \<Longrightarrow> length (al ! i) = l"
    and "\<And>i j. i < k \<Longrightarrow> j < l \<Longrightarrow> 0 \<le> al ! i ! j"
    and "distinct p" and "distinct q" and "set p \<subseteq> set q" and "set q \<subseteq> {..<k}"
    and "j < l"
  shows "run_work al w p ! j \<le> run_work al w q ! j"
proof -
  have lp: "length (al ! i) = l" if "i \<in> set p" for i
    using that assms(2,6,7) by auto
  have lq: "length (al ! i) = l" if "i \<in> set q" for i
    using that assms(2,7) by auto
  have "(\<Sum>i\<leftarrow>p. al ! i ! j) = (\<Sum>i\<in>set p. al ! i ! j)"
    using assms(4) by (rule sum_list_distinct_conv_sum_set)
  moreover have "(\<Sum>i\<leftarrow>q. al ! i ! j) = (\<Sum>i\<in>set q. al ! i ! j)"
    using assms(5) by (rule sum_list_distinct_conv_sum_set)
  moreover have "(\<Sum>i\<in>set p. al ! i ! j) \<le> (\<Sum>i\<in>set q. al ! i ! j)"
  proof (rule sum_mono2)
    show "finite (set q)" by simp
    show "set p \<subseteq> set q" by (rule assms(6))
    fix b assume "b \<in> set q - set p"
    with assms(7) have "b < k" by auto
    from assms(3)[OF this assms(8)] show "0 \<le> al ! b ! j" .
  qed
  ultimately show ?thesis
    using run_work_nth[OF assms(1) lp assms(8)] run_work_nth[OF assms(1) lq assms(8)]
    by simp
qed

lemma closed_run_superset:
  assumes "length w = l" and "\<And>i. i < k \<Longrightarrow> length (al ! i) = l"
    and "\<And>i. i < k \<Longrightarrow> length (nd ! i) = l"
    and "\<And>i j. i < k \<Longrightarrow> j < l \<Longrightarrow> 0 \<le> al ! i ! j"
    and "distinct q" and "set q \<subseteq> {..<k}"
    and "\<And>i. i < k \<Longrightarrow> i \<in> set q \<or> \<not> vec_le (nd ! i) (run_work al w q)"
    and "valid_run nd al w p" and "distinct p" and "set p \<subseteq> {..<k}"
  shows "set p \<subseteq> set q"
  using assms(8,9,10)
proof (induction p rule: rev_induct)
  case Nil
  then show ?case by simp
next
  case (snoc x xs)
  from snoc.prems have v: "valid_run nd al w xs" and
    e: "vec_le (nd ! x) (run_work al w xs)" and d: "distinct xs" and
    s: "set xs \<subseteq> {..<k}" and x: "x < k"
    by (simp_all add: valid_run_snoc)
  from snoc.IH[OF v d s] have sub: "set xs \<subseteq> set q" .
  have lxs: "length (run_work al w xs) = l"
    using assms(1) s assms(2) by (intro run_work_length) auto
  have lq: "length (run_work al w q) = l"
    using assms(1) assms(6) assms(2) by (intro run_work_length) auto
  have "vec_le (nd ! x) (run_work al w q)"
    unfolding vec_le_same_length[OF assms(3)[OF x] lq]
  proof (intro allI impI)
    fix j assume j: "j < l"
    from e have "nd ! x ! j \<le> run_work al w xs ! j"
      unfolding vec_le_same_length[OF assms(3)[OF x] lxs] using j by simp
    also have "\<dots> \<le> run_work al w q ! j"
      using assms(1,2,4) d assms(5) sub assms(6) j by (rule run_work_mono)
    finally show "nd ! x ! j \<le> run_work al w q ! j" .
  qed
  with assms(7)[OF x] have "x \<in> set q" by simp
  with sub show ?case by simp
qed





lemma alloc_nonnegD:
  "alloc_nonneg s \<Longrightarrow> i < length (allocation s) \<Longrightarrow> j < length (allocation s ! i) \<Longrightarrow>
   0 \<le> allocation s ! i ! j"
  by (simp add: alloc_nonneg_def list_all_length)

lemma need_wf_nth:
  assumes "wf_dims s" and "need s = Inr nd"
  shows "length nd = nat (n s)"
    and "i < nat (n s) \<Longrightarrow> length (nd ! i) = nat (m s)"
    and "i < nat (n s) \<Longrightarrow> j < nat (m s) \<Longrightarrow>
         nd ! i ! j = max_need s ! i ! j - allocation s ! i ! j"
  using need_Inr[OF assms(2)] by simp_all

subsection \<open>The restart-from-the-top scan keeps the same invariant\<close>

lemma scan_inv_pick:
  assumes "scan_inv nd al k w0 w f sq" and "i < k" and "\<not> f ! i" and "vec_le (nd ! i) w"
  shows "scan_inv nd al k w0 (vec_add w (al ! i)) (f[i := True]) (sq @ [i])"
proof -
  note d = scan_invD[OF assms(1)]
  from assms(3) d(2)[OF assms(2)] have ni: "i \<notin> set sq" by simp
  show ?thesis
  proof (rule scan_invI)
    show "length (f[i := True]) = k" using d(1) by simp
    show "(f[i := True]) ! j = (j \<in> set (sq @ [i]))" if "j < k" for j
      using d(2)[OF that] d(1) that by (cases "j = i") auto
    show "distinct (sq @ [i])" using d(3) ni by simp
    show "set (sq @ [i]) \<subseteq> {..<k}" using d(4) assms(2) by simp
    show "vec_add w (al ! i) = run_work al w0 (sq @ [i])"
      using d(5) by (simp add: run_work_snoc)
    show "valid_run nd al w0 (sq @ [i])"
      using d(5,6) assms(4) by (simp add: valid_run_snoc)
  qed
qed

lemma isSafe_loop_inv:
  assumes "isSafe_loop nd al (w, f, sq) = (w', f', sq')"
    and "scan_inv nd al k w0 w f sq"
  shows "scan_inv nd al k w0 w' f' sq' \<and> (\<forall>i<k. i \<in> set sq' \<or> \<not> vec_le (nd ! i) w')"
  using assms
proof (induction nd al "(w, f, sq)" arbitrary: w f sq rule: isSafe_loop.induct)
  case (1 nd al work finish seq)
  note d = scan_invD[OF "1.prems"(2)]
  show ?case
  proof (cases "isSafe_pick nd work finish")
    case None
    with "1.prems"(1) have e: "w' = work" "f' = finish" "sq' = seq" by simp_all
    from None have "\<forall>i<length finish. finish ! i \<or> \<not> vec_le (nd ! i) work"
      by (auto simp: isSafe_pick_def find_None_iff)
    then have "\<forall>i<k. i \<in> set seq \<or> \<not> vec_le (nd ! i) work"
      using d(1) d(2) by auto
    with "1.prems"(2) e show ?thesis by simp
  next
    case (Some i)
    from isSafe_pick_Some[OF Some] d(1) have
      i: "i < k" "\<not> finish ! i" "vec_le (nd ! i) work" by auto
    from "1.prems"(1) Some have
      r: "isSafe_loop nd al (vec_add work (al ! i), finish[i := True], seq @ [i]) = (w', f', sq')"
      by simp
    from scan_inv_pick[OF "1.prems"(2) i]
    have "scan_inv nd al k w0 (vec_add work (al ! i)) (finish[i := True]) (seq @ [i])" .
    from "1.hyps"[OF Some r this] show ?thesis .
  qed
qed

lemma all_finished_iff:
  assumes "scan_inv nd al k w0 w f sq"
  shows "list_all (\<lambda>b. b) f = (set sq = {..<k})"
proof -
  note d = scan_invD[OF assms]
  have e: "f ! i = (i \<in> set sq)" if "i < k" for i using d(2)[OF that] .
  have "list_all (\<lambda>b. b) f = (\<forall>i<k. f ! i)" by (simp add: list_all_length d(1))
  also have "\<dots> = (\<forall>i<k. i \<in> set sq)" by (simp add: e)
  also have "\<dots> = (set sq = {..<k})" using d(4) by auto
  finally show ?thesis .
qed

subsection \<open>Releases\<close>



section \<open>Scenario A\<close>

text \<open>
  Claim C1. On the textbook state of scenario A (five processes, three resource classes,
  \<open>Available = [3, 3, 2]\<close>) the safety check returns the verdict safe together with the
  completion sequence \<open>[1, 3, 4, 0, 2]\<close>.
\<close>

theorem C1_scenario_A_safe:
  "safety_check scenario_A = Inr (True, [1, 3, 4, 0, 2])"
  by code_simp

section \<open>Requests\<close>

text \<open>
  Claim C4. A call of \<open>request\<close> that returns \<open>False\<close> leaves the ledger as it was: the
  \<open>Available\<close> vector, the \<open>Allocation\<close> matrix and the \<open>Max\<close> matrix after the call are
  those before it.
\<close>

theorem C4_rejected_request_unchanged:
  "request s pid req verbose = (s', Inr False) \<Longrightarrow>
   s' = s \<and> available s' = available s \<and> allocation s' = allocation s \<and>
   max_need s' = max_need s"
  using request_with_cases[of safety_check s pid req verbose s' False]
  by (simp add: request_def)

text \<open>Scenario C: process 0 asks for \<open>[1, 0, 2]\<close> in scenario A, which would be unsafe.\<close>

theorem C4_rejected_request_unchanged_witness:
  "snd (request scenario_A 0 [1, 0, 2] True) = Inr False \<and>
   fst (request scenario_A 0 [1, 0, 2] True) = scenario_A"
proof -
  have r: "snd (request scenario_A 0 [1, 0, 2] True) = Inr False"
    by code_simp
  then have "request scenario_A 0 [1, 0, 2] True =
    (fst (request scenario_A 0 [1, 0, 2] True), Inr False)"
    by (metis prod.collapse)
  from C4_rejected_request_unchanged[OF this] r show ?thesis by simp
qed

text \<open>
  Claim C5. When \<open>pid\<close> is in range, \<open>req\<close> has \<open>m\<close> entries and some entry of \<open>req\<close> exceeds the
  entry of \<open>Need[pid]\<close>, the request returns \<open>False\<close> and leaves the ledger alone. It does so
  at the comparison with \<open>Need\<close>: whatever \<open>Available\<close> holds (it is not constrained, so
  also when it covers \<open>req\<close>) and whatever method stands for the safety check, so the check
  is never run.
\<close>

theorem C5_exceeds_need_rejected:
  assumes "0 \<le> pid" and "pid < n s" and "int (length req) = m s"
    and "need s = Inr nd" and "j < nat (m s)" and "nd ! nat pid ! j < req ! j"
  shows "request_with check s pid req verbose = (s, Inr False) \<and>
         request s pid req verbose = (s, Inr False)"
proof -
  from assms(1,2) have p: "nat pid < nat (n s)" by simp
  from need_Inr(1)[OF assms(4)] p have g: "getitem nd (nat pid) = Inr (nd ! nat pid)"
    by (simp add: getitem_def)
  from need_Inr(2)[OF assms(4) p] have l: "length (nd ! nat pid) = nat (m s)" .
  from assms(3) have lr: "length req = nat (m s)" by simp
  have "\<not> vec_le req (nd ! nat pid)"
    using assms(5,6) l lr by (auto simp: vec_le_nth)
  with g assms(1,2,3,4) have "request_with c s pid req verbose = (s, Inr False)" for c
    by (simp add: request_with_def)
  then show ?thesis by (simp add: request_def)
qed

text \<open>
  In scenario A process 1 needs \<open>[1, 2, 2]\<close>; it asks for \<open>[2, 0, 0]\<close>, which \<open>Available\<close>
  covers. The call is rejected even with a safety check that would raise.
\<close>

theorem C5_exceeds_need_rejected_witness:
  "vec_le [2, 0, 0] (available scenario_A) \<and>
   need scenario_A = Inr [[7, 4, 3], [1, 2, 2], [6, 0, 0], [0, 1, 1], [4, 3, 1]] \<and>
   request_with (\<lambda>tmp. Inl IndexError) scenario_A 1 [2, 0, 0] True = (scenario_A, Inr False) \<and>
   request scenario_A 1 [2, 0, 0] True = (scenario_A, Inr False)"
proof -
  have a: "vec_le [2, 0, 0] (available scenario_A)" by code_simp
  have nd: "need scenario_A = Inr [[7, 4, 3], [1, 2, 2], [6, 0, 0], [0, 1, 1], [4, 3, 1]]"
    by code_simp
  have h: "(0::int) \<le> 1" "1 < n scenario_A" "int (length [2, 0, 0::int]) = m scenario_A"
    "(0::nat) < nat (m scenario_A)"
    "[[7, 4, 3], [1, 2, 2], [6, 0, 0], [0, 1, 1], [4, 3, 1]] ! nat 1 ! 0 < [2, 0, 0::int] ! 0"
    by (simp_all add: scenario_A_def)
  from C5_exceeds_need_rejected[OF h(1,2,3) nd h(4,5)] a nd show ?thesis by simp
qed

text \<open>
  Claim C6. After a granted request, \<open>Available\<close> is the old \<open>Available\<close> minus \<open>req\<close>, row
  \<open>pid\<close> of \<open>Allocation\<close> is the old row plus \<open>req\<close>, every other row of \<open>Allocation\<close> is
  unchanged, and \<open>Max\<close> (with the dimensions) is unchanged.
\<close>

theorem C6_granted_request_effect:
  assumes "request s pid req verbose = (s', Inr True)"
  shows "available s' = vec_sub (available s) req \<and>
         (\<forall>j. j < nat (m s) \<and> j < length (available s) \<longrightarrow>
              available s' ! j = available s ! j - req ! j) \<and>
         allocation s' = (allocation s)[nat pid := vec_add (allocation s ! nat pid) req] \<and>
         (\<forall>j. j < nat (m s) \<longrightarrow>
              allocation s' ! nat pid ! j = allocation s ! nat pid ! j + req ! j) \<and>
         (\<forall>i. i \<noteq> nat pid \<longrightarrow> allocation s' ! i = allocation s ! i) \<and>
         length (allocation s') = length (allocation s) \<and>
         max_need s' = max_need s \<and> n s' = n s \<and> m s' = m s"
proof -
  from request_with_cases[OF assms[unfolded request_def]]
  obtain nd where
    p: "0 \<le> pid" "pid < n s" and lr: "int (length req) = m s" and nd: "need s = Inr nd"
    and pl: "nat pid < length (allocation s)"
    and s': "s' = s\<lparr>available := vec_sub (available s) req,
                    allocation := (allocation s)[nat pid := vec_add (allocation s ! nat pid) req]\<rparr>"
    by auto
  from p have pn: "nat pid < nat (n s)" by simp
  have row: "j < length (allocation s ! nat pid)" if "j < nat (m s)" for j
    using need_Inr(3)[OF nd pn that] by simp
  from lr have lr': "length req = nat (m s)" by simp
  have "allocation s' ! nat pid ! j = allocation s ! nat pid ! j + req ! j"
    if "j < nat (m s)" for j
    using s' pl row[OF that] that lr' by simp
  moreover have "available s' ! j = available s ! j - req ! j"
    if "j < nat (m s)" "j < length (available s)" for j
    using s' that lr' by simp
  ultimately show ?thesis using s' by simp
qed

text \<open>Scenario B: process 1 asks for \<open>[1, 0, 2]\<close> in scenario A and gets it.\<close>

theorem C6_granted_request_effect_witness:
  "snd (request scenario_A 1 [1, 0, 2] True) = Inr True \<and>
   available (fst (request scenario_A 1 [1, 0, 2] True)) = [2, 3, 0] \<and>
   allocation (fst (request scenario_A 1 [1, 0, 2] True)) =
     [[0, 1, 0], [3, 0, 2], [3, 0, 2], [2, 1, 1], [0, 0, 2]] \<and>
   max_need (fst (request scenario_A 1 [1, 0, 2] True)) = max_need scenario_A"
proof -
  have r: "snd (request scenario_A 1 [1, 0, 2] True) = Inr True"
    by code_simp
  then have "request scenario_A 1 [1, 0, 2] True =
    (fst (request scenario_A 1 [1, 0, 2] True), Inr True)"
    by (metis prod.collapse)
  from C6_granted_request_effect[OF this] r show ?thesis
    by (simp add: scenario_A_def vec_sub_def vec_add_def)
qed

section \<open>Conservation\<close>

text \<open>
  Claim C7. On a ledger with the dimensions of the data model, a request or a release that
  returns \<open>True\<close> leaves, for every resource class \<open>j\<close>, the sum of \<open>Available[j]\<close> and of
  \<open>Allocation[i][j]\<close> over all processes \<open>i\<close> as it was.
\<close>

theorem C7_conservation:
  assumes "wf_dims s" and "j < nat (m s)"
  shows "(request s pid v verbose = (s', Inr True) \<longrightarrow> total_units s' j = total_units s j) \<and>
         (release s pid v verbose = (s', Inr True) \<longrightarrow> total_units s' j = total_units s j)"
proof (intro conjI impI)
  assume "request s pid v verbose = (s', Inr True)"
  from request_with_cases[OF this[unfolded request_def]]
  have p: "0 \<le> pid" "pid < n s" and lr: "int (length v) = m s"
    and s': "s' = s\<lparr>available := vec_sub (available s) v,
                    allocation := (allocation s)[nat pid := vec_add (allocation s ! nat pid) v]\<rparr>"
    by auto
  from p have pn: "nat pid < nat (n s)" by simp
  from lr have lv: "length v = nat (m s)" by simp
  show "total_units s' j = total_units s j"
    using s' pn lv assms(2) wf_dimsD(1,3)[OF assms(1)] wf_dimsD(5)[OF assms(1) pn]
    by (simp add: total_units_def column_sum_update)
next
  assume "release s pid v verbose = (s', Inr True)"
  from release_cases[OF this]
  have p: "0 \<le> pid" "pid < n s" and lr: "int (length v) = m s"
    and s': "s' = s\<lparr>allocation := (allocation s)[nat pid := vec_sub (allocation s ! nat pid) v],
                    available := vec_add (available s) v\<rparr>"
    by auto
  from p have pn: "nat pid < nat (n s)" by simp
  from lr have lv: "length v = nat (m s)" by simp
  show "total_units s' j = total_units s j"
    using s' pn lv assms(2) wf_dimsD(1,3)[OF assms(1)] wf_dimsD(5)[OF assms(1) pn]
    by (simp add: total_units_def column_sum_update)
qed

text \<open>
  In scenario A the supply is \<open>[10, 5, 7]\<close>; it is checked for class 0 after a granted request
  and for class 1 after a release.
\<close>

theorem C7_conservation_witness:
  "wf_dims scenario_A \<and>
   snd (request scenario_A 1 [1, 0, 2] True) = Inr True \<and>
   total_units (fst (request scenario_A 1 [1, 0, 2] True)) 0 = 10 \<and>
   snd (release scenario_A 3 [1, 1, 0] True) = Inr True \<and>
   total_units (fst (release scenario_A 3 [1, 1, 0] True)) 1 = 5"
proof -
  have w: "wf_dims scenario_A" by code_simp
  have j: "0 < nat (m scenario_A)" "1 < nat (m scenario_A)" by (simp_all add: scenario_A_def)
  have t: "total_units scenario_A 0 = 10" "total_units scenario_A 1 = 5" by code_simp+
  have r: "snd (request scenario_A 1 [1, 0, 2] True) = Inr True" by code_simp
  then have r': "request scenario_A 1 [1, 0, 2] True =
    (fst (request scenario_A 1 [1, 0, 2] True), Inr True)"
    by (metis prod.collapse)
  have l: "snd (release scenario_A 3 [1, 1, 0] True) = Inr True" by code_simp
  then have l': "release scenario_A 3 [1, 1, 0] True =
    (fst (release scenario_A 3 [1, 1, 0] True), Inr True)"
    by (metis prod.collapse)
  from C7_conservation[OF w j(1), of 1 "[1, 0, 2]" True "fst (request scenario_A 1 [1, 0, 2] True)"]
    C7_conservation[OF w j(2), of 3 "[1, 1, 0]" True "fst (release scenario_A 3 [1, 1, 0] True)"]
    r' l' w r l t
  show ?thesis by simp
qed

section \<open>Negative requests\<close>

text \<open>
  Claim C10. \<open>request\<close> does not check that \<open>req\<close> is non-negative: there is a ledger that
  satisfies I1 and I2 (scenario A) and a request vector of the right length with a negative
  entry that is granted without an exception, after which an entry of the \<open>Allocation\<close> row
  of the process is negative, so I1 is broken.
\<close>

theorem C10_negative_request_granted:
  "\<exists>s pid req s' j.
     wf_dims s \<and> inv_I1 s \<and> inv_I2 s \<and> 0 \<le> pid \<and> pid < n s \<and>
     int (length req) = m s \<and> j < nat (m s) \<and> req ! j < 0 \<and>
     request s pid req True = (s', Inr True) \<and> request s pid req False = (s', Inr True) \<and>
     allocation s' ! nat pid ! j < 0"
proof -
  let ?s' = "scenario_A\<lparr>available := [4, 3, 2],
      allocation := [[-1, 1, 0], [2, 0, 0], [3, 0, 2], [2, 1, 1], [0, 0, 2]]\<rparr>"
  have "wf_dims scenario_A" "inv_I1 scenario_A" "inv_I2 scenario_A"
    by code_simp+
  moreover have "(0::int) \<le> 0" "0 < n scenario_A" "int (length [-1, 0, 0 :: int]) = m scenario_A"
    "(0::nat) < nat (m scenario_A)" "[-1, 0, 0 :: int] ! 0 < 0"
    by (simp_all add: scenario_A_def)
  moreover have "request scenario_A 0 [-1, 0, 0] True = (?s', Inr True)"
    "request scenario_A 0 [-1, 0, 0] False = (?s', Inr True)"
    by code_simp+
  moreover have "allocation ?s' ! nat 0 ! 0 < 0" by simp
  ultimately show ?thesis by blast
qed

section \<open>The result of the safety check\<close>

text \<open>
  Claim C9. The safety check returns a pair on every ledger with the dimensions of the data
  model, and whenever it returns \<open>(safe, seq)\<close>: \<open>seq\<close> lists no index twice, every index
  of \<open>seq\<close> lies in \<open>[0, n)\<close>, and \<open>safe\<close> holds exactly when \<open>seq\<close> has length \<open>n\<close>; on the
  verdict unsafe \<open>seq\<close> is shorter than \<open>n\<close>. (For \<open>n < 0\<close> the ranges are empty, which is the
  length \<open>nat n = 0\<close>.)
\<close>

theorem C9_safety_result_shape:
  "(wf_dims s \<longrightarrow> (\<exists>safe seq. safety_check s = Inr (safe, seq))) \<and>
   (safety_check s = Inr (safe, seq) \<longrightarrow>
      distinct seq \<and> (\<forall>i\<in>set seq. 0 \<le> int i \<and> int i < n s) \<and>
      (safe \<longleftrightarrow> length seq = nat (n s)) \<and>
      (0 \<le> n s \<longrightarrow> (safe \<longleftrightarrow> int (length seq) = n s)) \<and>
      (\<not> safe \<longrightarrow> length seq < nat (n s)))"
proof (intro conjI impI)
  assume "wf_dims s"
  then show "\<exists>safe seq. safety_check s = Inr (safe, seq)" by (rule safety_check_wf)
next
  assume a: "safety_check s = Inr (safe, seq)"
  from a obtain nd w f where
    inv: "scan_inv nd (allocation s) (nat (n s)) (available s) w f seq" and
    sf: "safe = (set seq = {..<nat (n s)})"
    by (rule safety_check_Inr)
  note d = scan_invD[OF inv]
  note f = distinct_full[OF d(3,4)]
  show "distinct seq" by (rule d(3))
  show "\<forall>i\<in>set seq. 0 \<le> int i \<and> int i < n s" using d(4) by auto
  show s1: "safe \<longleftrightarrow> length seq = nat (n s)" using sf f(1) by simp
  { assume "0 \<le> n s"
    with s1 show "safe \<longleftrightarrow> int (length seq) = n s" by auto }
  { assume "\<not> safe"
    with s1 f(2) show "length seq < nat (n s)" by simp }
qed

text \<open>Scenario A, and scenario A with \<open>Available = [2, 3, 0]\<close>, where no process can finish.\<close>

theorem C9_safety_result_shape_witness:
  "wf_dims scenario_A \<and>
   safety_check scenario_A = Inr (True, [1, 3, 4, 0, 2]) \<and>
   distinct [1, 3, 4, 0, 2 :: nat] \<and>
   int (length [1, 3, 4, 0, 2 :: nat]) = n scenario_A \<and>
   safety_check (scenario_A\<lparr>available := [2, 3, 0]\<rparr>) = Inr (False, []) \<and>
   length ([] :: nat list) < nat (n (scenario_A\<lparr>available := [2, 3, 0]\<rparr>))"
proof -
  have w: "wf_dims scenario_A" by code_simp
  have a: "safety_check scenario_A = Inr (True, [1, 3, 4, 0, 2])" by code_simp
  have b: "safety_check (scenario_A\<lparr>available := [2, 3, 0]\<rparr>) = Inr (False, [])"
    by code_simp
  have k: "0 \<le> n scenario_A" by (simp add: scenario_A_def)
  from C9_safety_result_shape[of scenario_A True "[1, 3, 4, 0, 2]"]
    C9_safety_result_shape[of "scenario_A\<lparr>available := [2, 3, 0]\<rparr>" False "[]"]
    w a b k
  show ?thesis by simp
qed

section \<open>Exceptions\<close>

text \<open>
  Claim C8. On a ledger with the dimensions of the data model, \<open>request\<close> and \<open>release\<close>
  raise an exception exactly when \<open>pid\<close> is outside \<open>[0, n)\<close> or the vector does not have
  \<open>m\<close> entries. In those cases the exception is the \<open>ValueError\<close> of the argument checks
  and the ledger is untouched; in all other cases the call returns a boolean.
\<close>

theorem C8_raise_iff_bad_arguments:
  assumes "wf_dims s"
  shows "(isl (snd (request s pid v verbose)) \<longleftrightarrow>
            pid < 0 \<or> n s \<le> pid \<or> int (length v) \<noteq> m s) \<and>
         (isl (snd (release s pid v verbose)) \<longleftrightarrow>
            pid < 0 \<or> n s \<le> pid \<or> int (length v) \<noteq> m s) \<and>
         (pid < 0 \<or> n s \<le> pid \<or> int (length v) \<noteq> m s \<longrightarrow>
            request s pid v verbose = (s, Inl ValueError) \<and>
            release s pid v verbose = (s, Inl ValueError))"
proof (cases "pid < 0 \<or> n s \<le> pid \<or> int (length v) \<noteq> m s")
  case True
  then have "request s pid v verbose = (s, Inl ValueError)"
    "release s pid v verbose = (s, Inl ValueError)"
    by (auto simp: request_def request_with_def release_def)
  with True show ?thesis by simp
next
  case False
  then have h: "0 \<le> pid" "pid < n s" "int (length v) = m s" by auto
  from request_wf[OF assms h] release_wf[OF assms h] False show ?thesis by simp
qed

text \<open>Scenario A with a process index too large, a negative one, and a vector too short.\<close>

theorem C8_raise_iff_bad_arguments_witness:
  "wf_dims scenario_A \<and>
   request scenario_A 5 [1, 0, 2] True = (scenario_A, Inl ValueError) \<and>
   release scenario_A (- 1) [1, 0, 2] True = (scenario_A, Inl ValueError) \<and>
   release scenario_A 1 [1, 0] True = (scenario_A, Inl ValueError) \<and>
   \<not> isl (snd (request scenario_A 0 [1, 0, 2] True)) \<and>
   \<not> isl (snd (release scenario_A 1 [3, 0, 0] True))"
proof -
  have w: "wf_dims scenario_A" by code_simp
  have k: "n scenario_A = 5" "m scenario_A = 3" by (simp_all add: scenario_A_def)
  from C8_raise_iff_bad_arguments[OF w, of 5 "[1, 0, 2]" True]
    C8_raise_iff_bad_arguments[OF w, of "- 1" "[1, 0, 2]" True]
    C8_raise_iff_bad_arguments[OF w, of 1 "[1, 0]" True]
    C8_raise_iff_bad_arguments[OF w, of 0 "[1, 0, 2]" True]
    C8_raise_iff_bad_arguments[OF w, of 1 "[3, 0, 0]" True]
    w k
  show ?thesis by simp
qed

section \<open>Releases\<close>




section \<open>The safety check and the restart-from-the-top algorithm\<close>

text \<open>
  Claim C2 says that the sequence of the safety check is the one of the algorithm that
  restarts the scan from index 0 after every completion. On scenario A it is not: the
  code goes on with the next index after process 3 and completes process 4, where the
  restarting algorithm goes back and completes process 0.
\<close>

theorem C2_restart_order_counterexample:
  "safety_check scenario_A = Inr (True, [1, 3, 4, 0, 2]) \<and>
   isSafe_ref scenario_A = Inr (True, [1, 3, 0, 2, 4]) \<and>
   map_sum id snd (safety_check scenario_A) \<noteq> map_sum id snd (isSafe_ref scenario_A)"
  by code_simp

text \<open>
  Claim C2, amended. On every ledger of the data model (dimensions as declared, no negative
  entry in \<open>Allocation\<close>) the safety check and the restart-from-the-top algorithm return the
  same verdict, and the two sequences are permutations of each other: the same processes,
  each once. Only the order can differ, since the code continues the scan at the next
  index after a completion.
\<close>

theorem C2_same_processes_as_reference:
  assumes "wf_dims s" and "alloc_nonneg s"
  shows "\<exists>safe seq seq'.
           safety_check s = Inr (safe, seq) \<and> isSafe_ref s = Inr (safe, seq') \<and>
           mset seq = mset seq'"
proof -
  define k where "k = nat (n s)"
  define l where "l = nat (m s)"
  define al where "al = allocation s"
  define w0 where "w0 = available s"
  note d = wf_dimsD[OF assms(1)]
  from safety_check_wf[OF assms(1)] obtain safe seq where
    sc: "safety_check s = Inr (safe, seq)" by blast
  from sc obtain nd w f where
    nd: "need s = Inr nd" and
    inv0: "scan_inv nd (allocation s) (nat (n s)) (available s) w f seq" and
    cl0: "\<forall>i<nat (n s). i \<in> set seq \<or> \<not> vec_le (nd ! i) w" and
    safe: "safe = (set seq = {..<nat (n s)})"
    by (rule safety_check_Inr) blast
  from inv0 have inv: "scan_inv nd al k w0 w f seq"
    by (simp add: al_def k_def w0_def)
  note i = scan_invD[OF inv]
  from cl0 i(5) have cl: "i \<in> set seq \<or> \<not> vec_le (nd ! i) (run_work al w0 seq)"
    if "i < k" for i using that by (simp add: k_def)
  obtain w' f' seq' where
    lp: "isSafe_loop nd al (w0, replicate k False, []) = (w', f', seq')"
    by (cases "isSafe_loop nd al (w0, replicate k False, [])") auto
  from isSafe_loop_inv[OF lp scan_inv_init] have
    inv': "scan_inv nd al k w0 w' f' seq'" and
    cl0': "\<forall>i<k. i \<in> set seq' \<or> \<not> vec_le (nd ! i) w'"
    by simp_all
  note i' = scan_invD[OF inv']
  from cl0' i'(5) have cl': "i \<in> set seq' \<or> \<not> vec_le (nd ! i) (run_work al w0 seq')"
    if "i < k" for i using that by simp
  have ref: "isSafe_ref s = Inr (set seq' = {..<k}, seq')"
    using lp all_finished_iff[OF inv']
    by (simp add: isSafe_ref_def nd al_def k_def w0_def)
  note ndn = need_wf_nth[OF assms(1) nd]
  have lw: "length w0 = l" using d(1) by (simp add: w0_def l_def)
  have lrow: "length (al ! i) = l" if "i < k" for i
    using d(5)[of i] that by (simp add: al_def k_def l_def)
  have lnd: "length (nd ! i) = l" if "i < k" for i
    using ndn(2)[of i] that by (simp add: k_def l_def)
  have nn: "0 \<le> al ! i ! j" if "i < k" "j < l" for i j
    using alloc_nonnegD[OF assms(2), of i j] that d(3) lrow[OF that(1)]
    by (simp add: al_def k_def)
  have a: "set seq \<subseteq> set seq'"
    using lw lrow lnd nn i'(3,4) cl' i(6,3,4) by (rule closed_run_superset)
  have b: "set seq' \<subseteq> set seq"
    using lw lrow lnd nn i(3,4) cl i'(6,3,4) by (rule closed_run_superset)
  from a b have e: "set seq = set seq'" by auto
  with i(3) i'(3) have "mset seq = mset seq'"
    by (simp add: set_eq_iff_mset_eq_distinct)
  with sc ref safe e show ?thesis by (auto simp: k_def)
qed

text \<open>Scenario A, where the two orders differ.\<close>

theorem C2_same_processes_as_reference_witness:
  "wf_dims scenario_A \<and> alloc_nonneg scenario_A \<and>
   (\<exists>safe seq seq'.
      safety_check scenario_A = Inr (safe, seq) \<and> isSafe_ref scenario_A = Inr (safe, seq') \<and>
      mset seq = mset seq') \<and>
   mset [1, 3, 4, 0, 2 :: nat] = mset [1, 3, 0, 2, 4]"
proof -
  have w: "wf_dims scenario_A" and nn: "alloc_nonneg scenario_A" by code_simp+
  have p: "mset [1, 3, 4, 0, 2 :: nat] = mset [1, 3, 0, 2, 4]" by (simp add: add_mset_commute)
  from C2_same_processes_as_reference[OF w nn] w nn p show ?thesis by blast
qed

end
